theory Spec2Isabelle
  imports Complex_Main "HOL-Library.Word"
begin

unbundle bit_operations_syntax

section \<open>Values\<close>

text \<open>
  The firmware buffer \<open>mrbContent\<close> is a \<open>Uint8Array\<close>: a list of bytes. The numbers the
  transfer counts with (lengths, offsets, the MTU) are JavaScript numbers holding
  integers far below \<open>2 ^ 53\<close>; they are modelled as \<open>int\<close>. The bitwise operators of
  \<open>crc16_reflect\<close> work on the 32-bit pattern of their operands (\<open>ToInt32\<close>,
  \<open>ToUint32\<close>), so the accumulator there is a \<open>32 word\<close>.
\<close>

type_synonym byte = "8 word"

section \<open>The checksum: \<open>crc16_reflect\<close>\<close>

text \<open>
  One pass of the inner loop body: \<open>if (crc & 0x0001) crc = (crc >>> 1) ^ poly;
  else crc = crc >>> 1\<close>.
\<close>

definition crc_shift :: "32 word \<Rightarrow> 32 word \<Rightarrow> 32 word" where
  "crc_shift poly crc =
     (if crc AND 0x0001 \<noteq> 0 then drop_bit 1 crc XOR poly else drop_bit 1 crc)"

text \<open>The inner loop \<open>for (let j = 0; j < 8; j++)\<close>, counting the passes left.\<close>

fun crc_bits :: "nat \<Rightarrow> 32 word \<Rightarrow> 32 word \<Rightarrow> 32 word" where
  "crc_bits 0 poly crc = crc"
| "crc_bits (Suc j) poly crc = crc_bits j poly (crc_shift poly crc)"

text \<open>The outer loop over \<open>src\<close>: \<open>crc ^= src[i]\<close>, then the eight passes.\<close>

fun crc_bytes :: "32 word \<Rightarrow> 32 word \<Rightarrow> byte list \<Rightarrow> 32 word" where
  "crc_bytes poly crc [] = crc"
| "crc_bytes poly crc (b # src) = crc_bytes poly (crc_bits 8 poly (crc XOR ucast b)) src"

definition crc16_reflect :: "32 word \<Rightarrow> 32 word \<Rightarrow> byte list \<Rightarrow> 32 word" where
  "crc16_reflect poly seed src = crc_bytes poly seed src AND 0xffff"

subsection \<open>The reference algorithm of the specification\<close>

text \<open>
  The reflected CRC16 as the specification words it, on a 16-bit accumulator: the byte is
  XORed into the low byte; eight times, if the low bit is set the accumulator is shifted
  right and XORed with the polynomial, else it is shifted right; the result is masked to
  16 bits.
\<close>

definition checksum_bit :: "16 word \<Rightarrow> 16 word \<Rightarrow> 16 word" where
  "checksum_bit polynomial acc =
     (if bit acc 0 then drop_bit 1 acc XOR polynomial else drop_bit 1 acc)"

definition checksum_byte :: "16 word \<Rightarrow> 16 word \<Rightarrow> byte \<Rightarrow> 16 word" where
  "checksum_byte polynomial acc b = (checksum_bit polynomial ^^ 8) (acc XOR ucast b)"

definition checksum :: "16 word \<Rightarrow> 16 word \<Rightarrow> byte list \<Rightarrow> 16 word" where
  "checksum polynomial seed buffer =
     foldl (checksum_byte polynomial) seed buffer AND mask 16"


section \<open>Frames\<close>

text \<open>
  \<open>DataView.setUint16(pos, v, true)\<close> stores \<open>v\<close> modulo \<open>2 ^ 16\<close> (\<open>ToUint16\<close>), low byte
  first; \<open>getUint16(pos, true)\<close> reads two bytes back, low byte first.
\<close>

definition setUint16 :: "int \<Rightarrow> byte list" where
  "setUint16 v = (let u = v mod 65536 in [word_of_int (u mod 256), word_of_int (u div 256)])"

definition getUint16 :: "byte list \<Rightarrow> int" where
  "getUint16 bs = uint (bs ! 0) + 256 * uint (bs ! 1)"

definition DATA_HEADER_SIZE :: int where
  "DATA_HEADER_SIZE = 6"

definition PROGRAM_HEADER_SIZE :: int where
  "PROGRAM_HEADER_SIZE = 8"

definition DEFAULT_MTU :: int where
  "DEFAULT_MTU = 20"

definition REQUESTED_MTU :: int where
  "REQUESTED_MTU = 512"

text \<open>
  \<open>TypedArray.subarray(begin, end)\<close>: a negative index counts from the end, both indices
  are clamped to the array, and an empty range gives an empty view.
\<close>

definition subarray :: "byte list \<Rightarrow> int \<Rightarrow> int \<Rightarrow> byte list" where
  "subarray xs b e =
     (let len = int (length xs);
          rel = (\<lambda>k. if k < 0 then max (len + k) 0 else min k len)
      in take (nat (rel e - rel b)) (drop (nat (rel b)) xs))"

text \<open>
  The Data frame of one loop pass: a zero-filled buffer of \<open>DATA_HEADER_SIZE +
  chunkDataSize\<close> bytes, version \<open>0x01\<close>, command \<open>'D'\<close>, the offset and the chunk size as
  little-endian 16-bit fields, and the payload view of \<open>chunkDataSize\<close> bytes into which
  \<open>payload.set\<close> copies the slice of \<open>mrbContent\<close> (bytes the slice does not reach stay
  zero).
\<close>

definition data_frame :: "byte list \<Rightarrow> int \<Rightarrow> int \<Rightarrow> byte list" where
  "data_frame mrbContent offset chunkDataSize =
     (let src = subarray mrbContent offset (offset + chunkDataSize);
          payload = src @ replicate (nat chunkDataSize - length src) 0
      in [0x01, 0x44] @ setUint16 offset @ setUint16 chunkDataSize @ payload)"

text \<open>The Program frame: version, \<open>'P'\<close>, length, CRC16, slot, reserved.\<close>

definition program_frame :: "int \<Rightarrow> 32 word \<Rightarrow> byte \<Rightarrow> byte list" where
  "program_frame contentLength crc16 slot =
     [0x01, 0x50] @ setUint16 contentLength @ setUint16 (uint crc16) @ [slot, 0]"

definition reload_frame :: "byte list" where
  "reload_frame = [0x01, 0x4C]"

section \<open>The session state and the channel\<close>

text \<open>
  A promise either resolves with a value or rejects; \<open>await\<close> turns the rejection into
  an exception.
\<close>

datatype 'a attempt = Throws | Returns 'a

text \<open>
  The globals of \<open>blink.js\<close> and what the Bluetooth stack answers:
  \<^item> \<open>programCharacteristic\<close>: undefined (\<open>None\<close>) or a characteristic; of the
    characteristic the model keeps whether its \<open>n\<close>-th write resolves;
  \<^item> \<open>requestMTU\<close>: the method \<open>requestMTU\<close> of the characteristic's GATT server
    (\<open>programCharacteristic.service.device.gatt\<close>), if the server has one;
  \<^item> \<open>readValue\<close>: the answer of \<open>negotiatedMtuCharacteristic.readValue()\<close>, the bytes
    of the \<open>DataView\<close>;
  \<^item> \<open>negotiatedMTU\<close>: the global of that name.
\<close>

record session =
  programCharacteristic :: "(nat \<Rightarrow> bool) option"
  requestMTU :: "(int \<Rightarrow> int attempt) option"
  readValue :: "byte list attempt"
  negotiatedMTU :: int

text \<open>What a run leaves behind: the buffers handed to the channel and the console lines.\<close>

datatype console =
    NoProgramCharacteristic
  | SendingBytecode int int "32 word" int
  | DataOk int int
  | DataError int
  | ProgramComplete
  | ProgramError
  | ReloadComplete
  | ReloadError

datatype event = Write "byte list" | Console console

section \<open>\<open>negotiateMTU\<close>\<close>

text \<open>
  The function first reads \<open>programCharacteristic.service.device.gatt\<close>, a \<open>TypeError\<close>
  when the characteristic is undefined. With \<open>requestMTU\<close>: the granted value is adopted,
  and a rejection sets the default. Without: the device-reported value is read as a
  little-endian \<open>uint16\<close> (a \<open>RangeError\<close> on fewer than two bytes) and 3 is subtracted;
  an exception on this path is caught and \<open>negotiatedMTU\<close> stays what it was. The result
  is the session after the call, or \<open>Throws\<close> for the uncaught exception.
\<close>

definition negotiateMTU :: "session \<Rightarrow> session attempt" where
  "negotiateMTU s =
     (case programCharacteristic s of
        None \<Rightarrow> Throws
      | Some characteristic \<Rightarrow>
          (case requestMTU s of
             Some request \<Rightarrow>
               (case request REQUESTED_MTU of
                  Returns granted \<Rightarrow> Returns (s\<lparr>negotiatedMTU := granted\<rparr>)
                | Throws \<Rightarrow> Returns (s\<lparr>negotiatedMTU := DEFAULT_MTU\<rparr>))
           | None \<Rightarrow>
               (case readValue s of
                  Returns valueDataView \<Rightarrow>
                    (if length valueDataView < 2 then Returns s
                     else Returns (s\<lparr>negotiatedMTU := getUint16 valueDataView - 3\<rparr>))
                | Throws \<Rightarrow> Returns s)))"

section \<open>\<open>sendFirmware\<close>\<close>

text \<open>How the chunk loop is left.\<close>

datatype loop_exit = Finished | WriteFailed | RangeError

text \<open>
  The loop \<open>for (let offset = 0; offset < contentLength; offset += DATA_PAYLOAD_SIZE)\<close>.
  \<open>n\<close> counts the writes made on the channel so far and \<open>tr\<close> is the trace so far. A
  negative \<open>chunkDataSize\<close> makes the buffer shorter than its header, and building the
  frame throws a \<open>RangeError\<close> outside the \<open>try\<close>. A failed write is logged with its
  offset and the function returns. The loop need not end: \<open>None\<close> is a run that
  never returns.
\<close>

partial_function (option) data_loop ::
  "(nat \<Rightarrow> bool) \<Rightarrow> int \<Rightarrow> byte list \<Rightarrow> int \<Rightarrow> nat \<Rightarrow> event list
     \<Rightarrow> (loop_exit \<times> nat \<times> event list) option"
where
  "data_loop chan payloadSize mrbContent offset n tr =
     (if offset < int (length mrbContent) then
        (let chunkDataSize = min payloadSize (int (length mrbContent) - offset) in
         if chunkDataSize < 0 then Some (RangeError, n, tr)
         else
           (let buffer = data_frame mrbContent offset chunkDataSize in
            if chan n then
              data_loop chan payloadSize mrbContent (offset + payloadSize) (Suc n)
                (tr @ [Write buffer, Console (DataOk offset chunkDataSize)])
            else Some (WriteFailed, Suc n, tr @ [Write buffer, Console (DataError offset)])))
      else Some (Finished, n, tr))"

declare data_loop.simps [code]

text \<open>\<open>sendReload\<close>, called without \<open>await\<close> after the Program frame: one more write.\<close>

definition sendReload :: "(nat \<Rightarrow> bool) \<Rightarrow> nat \<Rightarrow> event list" where
  "sendReload chan n =
     [Write reload_frame, Console (if chan n then ReloadComplete else ReloadError)]"

text \<open>How \<open>sendFirmware\<close> ends: its promise resolves, or rejects with the exception.\<close>

datatype outcome = Resolved | Rejected

definition sendFirmware :: "session \<Rightarrow> byte list \<Rightarrow> (outcome \<times> event list) option" where
  "sendFirmware s mrbContent =
     (let contentLength = int (length mrbContent);
          crc16 = crc16_reflect 0xd175 0xffff mrbContent;
          slot = 2
      in case programCharacteristic s of
           None \<Rightarrow> Some (Resolved, [Console NoProgramCharacteristic])
         | Some chan \<Rightarrow>
             (let DATA_PAYLOAD_SIZE = negotiatedMTU s - DATA_HEADER_SIZE in
              case data_loop chan DATA_PAYLOAD_SIZE mrbContent 0 0
                     [Console (SendingBytecode (uint slot) contentLength crc16 (negotiatedMTU s))] of
                None \<Rightarrow> None
              | Some (RangeError, n, tr) \<Rightarrow> Some (Rejected, tr)
              | Some (WriteFailed, n, tr) \<Rightarrow> Some (Resolved, tr)
              | Some (Finished, n, tr) \<Rightarrow>
                  (let programBuffer = program_frame contentLength crc16 slot in
                   if chan n then
                     Some (Resolved,
                       tr @ [Write programBuffer, Console ProgramComplete] @ sendReload chan (Suc n))
                   else Some (Resolved, tr @ [Write programBuffer, Console ProgramError]))))"

section \<open>Reading a trace\<close>

text \<open>The buffers written to the channel, in the order of the writes.\<close>

fun writes :: "event list \<Rightarrow> byte list list" where
  "writes [] = []"
| "writes (Write b # tr) = b # writes tr"
| "writes (Console c # tr) = writes tr"

text \<open>
  The receiver's view of a frame, after the wire format: the version byte and the command
  tag, then for a Data frame the offset, the chunk length and the payload, and for a
  Program frame the total length and the CRC16, all 16-bit fields little-endian.
\<close>

definition is_data :: "byte list \<Rightarrow> bool" where
  "is_data f = (take 2 f = [0x01, 0x44])"

definition is_program :: "byte list \<Rightarrow> bool" where
  "is_program f = (take 2 f = [0x01, 0x50])"

definition data_frames :: "event list \<Rightarrow> byte list list" where
  "data_frames tr = filter is_data (writes tr)"

definition program_frames :: "event list \<Rightarrow> byte list list" where
  "program_frames tr = filter is_program (writes tr)"

definition frame_offset :: "byte list \<Rightarrow> int" where
  "frame_offset f = getUint16 (take 2 (drop 2 f))"

definition frame_length :: "byte list \<Rightarrow> int" where
  "frame_length f = getUint16 (take 2 (drop 4 f))"

definition frame_payload :: "byte list \<Rightarrow> byte list" where
  "frame_payload f = drop 6 f"

definition program_totalLength :: "byte list \<Rightarrow> int" where
  "program_totalLength f = getUint16 (take 2 (drop 2 f))"

definition program_crc16 :: "byte list \<Rightarrow> int" where
  "program_crc16 f = getUint16 (take 2 (drop 4 f))"

text \<open>
  The number of passes of the chunk loop over a buffer of \<open>len\<close> bytes when every write
  resolves: \<open>len / payloadSize\<close> rounded up.
\<close>

definition chunk_count :: "nat \<Rightarrow> int \<Rightarrow> nat" where
  "chunk_count len payloadSize = nat ((int len + payloadSize - 1) div payloadSize)"

text \<open>The frame of pass \<open>k\<close> of the loop, and what the pass adds to the trace.\<close>

definition chunk_frame :: "byte list \<Rightarrow> int \<Rightarrow> nat \<Rightarrow> byte list" where
  "chunk_frame B ps k = data_frame B (int k * ps) (min ps (int (length B) - int k * ps))"

definition pass :: "byte list \<Rightarrow> int \<Rightarrow> nat \<Rightarrow> event list" where
  "pass B ps k =
     [Write (chunk_frame B ps k),
      Console (DataOk (int k * ps) (min ps (int (length B) - int k * ps)))]"

section \<open>Concrete channels, buffers and sessions\<close>

text \<open>A channel on which every write resolves, and one whose write number \<open>k\<close> rejects.\<close>

definition always_ok :: "nat \<Rightarrow> bool" where
  "always_ok n = True"

definition fails_at :: "nat \<Rightarrow> nat \<Rightarrow> bool" where
  "fails_at k n = (n \<noteq> k)"

text \<open>A transport that grants the MTU \<open>v\<close> whatever is requested, and one that rejects.\<close>

definition grants :: "int \<Rightarrow> int \<Rightarrow> int attempt" where
  "grants v requested = Returns v"

definition refuses :: "int \<Rightarrow> int attempt" where
  "refuses requested = Throws"

definition zeros :: "nat \<Rightarrow> byte list" where
  "zeros n = replicate n 0"

text \<open>A connected session with the given channel and MTU, and no MTU primitive.\<close>

definition session_of :: "(nat \<Rightarrow> bool) \<Rightarrow> int \<Rightarrow> session" where
  "session_of chan mtu =
     \<lparr>programCharacteristic = Some chan, requestMTU = None, readValue = Throws,
      negotiatedMTU = mtu\<rparr>"

section \<open>The checksum refines the reference algorithm\<close>

lemma and_1_bit: "(w :: 32 word) AND 0x0001 \<noteq> 0 \<longleftrightarrow> bit w 0"
  by (simp add: and_one_eq bit_0 mod_2_eq_odd)

lemma crc_shift_ucast: "crc_shift (ucast p) (ucast a) = ucast (checksum_bit p a)"
proof -
  have d: "drop_bit (Suc 0) (ucast a :: 32 word) = ucast (drop_bit (Suc 0) a)"
    by (rule bit_word_eqI) (auto simp: bit_simps dest: bit_imp_le_length)
  have x: "(ucast (drop_bit (Suc 0) a) :: 32 word) XOR ucast p = ucast (drop_bit (Suc 0) a XOR p)"
    by (rule bit_word_eqI) (auto simp: bit_simps)
  have b: "bit (ucast a :: 32 word) 0 = bit a 0"
    by (simp add: bit_simps)
  show ?thesis
    by (simp add: crc_shift_def checksum_bit_def and_1_bit d x b)
qed

lemma crc_bits_ucast: "crc_bits j (ucast p) (ucast a) = ucast ((checksum_bit p ^^ j) a)"
  by (induction j arbitrary: a) (simp_all add: crc_shift_ucast funpow_swap1)

lemma crc_byte_ucast:
  "crc_bits 8 (ucast p) (ucast a XOR ucast b) = ucast (checksum_byte p a b)"
proof -
  have "(ucast a :: 32 word) XOR ucast b = ucast (a XOR (ucast b :: 16 word))"
    by (rule bit_word_eqI) (auto simp: bit_simps dest: bit_imp_le_length)
  then show ?thesis
    by (simp add: crc_bits_ucast checksum_byte_def)
qed

lemma crc_bytes_ucast:
  "crc_bytes (ucast p) (ucast a) src = ucast (foldl (checksum_byte p) a src)"
  by (induction src arbitrary: a) (simp_all add: crc_byte_ucast)

lemma ucast_and_ffff: "(ucast (a :: 16 word) :: 32 word) AND 0xffff = ucast a"
proof -
  have m: "(0xffff :: 32 word) = mask 16" by (simp add: mask_eq_exp_minus_1)
  show ?thesis unfolding m
    by (rule bit_word_eqI) (auto simp: bit_simps dest: bit_imp_le_length)
qed

lemma and_mask_16: "(a :: 16 word) AND mask 16 = a"
  by (rule bit_word_eqI) (auto simp: bit_simps dest: bit_imp_le_length)

lemma crc16_reflect_checksum:
  "crc16_reflect (ucast p) (ucast s) src = ucast (checksum p s src)"
  by (simp add: crc16_reflect_def checksum_def crc_bytes_ucast ucast_and_ffff and_mask_16)

lemma crc16_reflect_d175:
  "crc16_reflect 0xd175 0xffff src = ucast (checksum 0xD175 0xFFFF src)"
  using crc16_reflect_checksum [of "0xD175" "0xFFFF" src] by simp

lemma uint_crc16_reflect_d175:
  "uint (crc16_reflect 0xd175 0xffff src) = uint (checksum 0xD175 0xFFFF src)"
  by (simp add: crc16_reflect_d175 uint_up_ucast is_up)

text \<open>
  Outside 16 bits the final mask shows: on the empty buffer the result is the seed
  masked.
\<close>

lemma crc16_reflect_empty: "crc16_reflect poly seed [] = seed AND 0xffff"
  by (simp add: crc16_reflect_def)

text \<open>
  Claim C4. For every 16-bit polynomial and seed and every byte buffer, \<open>crc16_reflect\<close>
  computes the reflected CRC16 of the reference algorithm: its 32-bit accumulator never
  leaves 16 bits, so XORing the byte in, the eight shift-and-conditionally-XOR passes and
  the final mask give the value of \<open>checksum\<close>. The result is below \<open>2 ^ 16\<close>; as a
  HOL function the model is deterministic and free of effects. On the empty buffer the
  result is the seed, and \<open>checksum(0xD175, 0xFFFF, [])\<close> is \<open>0xFFFF\<close>. The known pair is
  the check value \<open>0xBB3D\<close> of CRC-16/ARC (reflected polynomial \<open>0xA001\<close>, seed 0) on
  the ASCII bytes of "123456789".
\<close>

theorem crc16_reflect_is_reflected_crc16:
  fixes polynomial seed :: "16 word"
  shows "crc16_reflect (ucast polynomial) (ucast seed) buffer = ucast (checksum polynomial seed buffer)
    \<and> uint (crc16_reflect (ucast polynomial) (ucast seed) buffer) < 65536
    \<and> checksum polynomial seed [] = seed
    \<and> crc16_reflect (ucast polynomial) (ucast seed) [] = ucast seed
    \<and> crc16_reflect 0xD175 0xFFFF [] = 0xFFFF
    \<and> crc16_reflect 0xA001 0x0000 [0x31, 0x32, 0x33, 0x34, 0x35, 0x36, 0x37, 0x38, 0x39] = 0xBB3D"
proof -
  have v: "crc16_reflect 0xA001 0x0000 [0x31, 0x32, 0x33, 0x34, 0x35, 0x36, 0x37, 0x38, 0x39] = 0xBB3D"
    by code_simp
  have e: "crc16_reflect (ucast polynomial) (ucast seed) [] = ucast seed"
    by (simp add: crc16_reflect_def ucast_and_ffff)
  have d: "crc16_reflect 0xD175 0xFFFF [] = 0xFFFF"
    by (simp add: crc16_reflect_def)
  have c: "checksum polynomial seed [] = seed"
    by (simp add: checksum_def and_mask_16)
  have "uint (ucast (checksum polynomial seed buffer) :: 32 word) < 2 ^ 16"
    by (simp add: uint_up_ucast is_up) (rule uint_lt2p [where 'a = 16, simplified])
  then have b: "uint (crc16_reflect (ucast polynomial) (ucast seed) buffer) < 65536"
    by (simp add: crc16_reflect_checksum)
  show ?thesis
    using crc16_reflect_checksum [of polynomial seed buffer] b c e d v by blast
qed

section \<open>The chunk loop, pass by pass\<close>

lemma chunk_count_lt:
  assumes "1 \<le> ps" and "k < chunk_count len ps"
  shows "int k * ps < int len"
proof -
  let ?q = "(int len + ps - 1) div ps"
  have "int k + 1 \<le> ?q" using assms by (simp add: chunk_count_def)
  then have "(int k + 1) * ps \<le> ?q * ps" using assms(1) by (simp add: mult_right_mono)
  also have "?q * ps \<le> int len + ps - 1"
    using assms(1) by (metis div_mult_mod_eq le_add_same_cancel1 pos_mod_sign zero_less_one_class.zero_less_one less_le_trans)
  finally show ?thesis by (simp add: algebra_simps)
qed

lemma chunk_count_ge:
  assumes "1 \<le> ps"
  shows "int len \<le> int (chunk_count len ps) * ps"
proof -
  let ?n = "int len + ps - 1"
  have q: "0 \<le> ?n div ps" using assms by (simp add: pos_imp_zdiv_nonneg_iff)
  have "?n mod ps < ps" using assms by simp
  moreover have "?n div ps * ps + ?n mod ps = ?n" by simp
  ultimately have "int len \<le> ?n div ps * ps" by linarith
  then show ?thesis using q by (simp add: chunk_count_def)
qed

lemma data_loop_exit:
  "int (length B) \<le> off \<Longrightarrow> data_loop chan ps B off n tr = Some (Finished, n, tr)"
  by (rule trans [OF data_loop.simps]) simp

lemma data_loop_throw:
  "off < int (length B) \<Longrightarrow> ps < 0 \<Longrightarrow> data_loop chan ps B off n tr = Some (RangeError, n, tr)"
  by (rule trans [OF data_loop.simps]) (simp add: Let_def)

lemma data_loop_ok:
  "off < int (length B) \<Longrightarrow> 0 \<le> ps \<Longrightarrow> chan n \<Longrightarrow>
   data_loop chan ps B off n tr =
   data_loop chan ps B (off + ps) (Suc n)
     (tr @ [Write (data_frame B off (min ps (int (length B) - off))),
            Console (DataOk off (min ps (int (length B) - off)))])"
  by (rule trans [OF data_loop.simps]) (simp add: Let_def min_less_iff_disj)

lemma data_loop_fail:
  "off < int (length B) \<Longrightarrow> 0 \<le> ps \<Longrightarrow> \<not> chan n \<Longrightarrow>
   data_loop chan ps B off n tr =
   Some (WriteFailed, Suc n,
     tr @ [Write (data_frame B off (min ps (int (length B) - off))), Console (DataError off)])"
  by (rule trans [OF data_loop.simps]) (simp add: Let_def min_less_iff_disj)

lemma data_loop_unroll:
  assumes "1 \<le> ps" and "j \<le> chunk_count (length B) ps" and "\<forall>i<j. chan i"
  shows "data_loop chan ps B 0 0 tr =
         data_loop chan ps B (int j * ps) j (tr @ concat (map (pass B ps) [0..<j]))"
  using assms(2,3)
proof (induction j)
  case 0
  show ?case by simp
next
  case (Suc j)
  have lt: "int j * ps < int (length B)"
    using Suc.prems(1) assms(1) by (simp add: chunk_count_lt)
  have "data_loop chan ps B 0 0 tr =
        data_loop chan ps B (int j * ps) j (tr @ concat (map (pass B ps) [0..<j]))"
    using Suc by simp
  also have "\<dots> = data_loop chan ps B (int j * ps + ps) (Suc j)
      ((tr @ concat (map (pass B ps) [0..<j])) @ pass B ps j)"
    using lt assms(1) Suc.prems(2) by (simp add: data_loop_ok pass_def chunk_frame_def)
  finally show ?case by (simp add: algebra_simps)
qed

lemma data_loop_finished:
  assumes "1 \<le> ps" and "\<forall>i<chunk_count (length B) ps. chan i"
  shows "data_loop chan ps B 0 0 tr =
         Some (Finished, chunk_count (length B) ps,
               tr @ concat (map (pass B ps) [0..<chunk_count (length B) ps]))"
  using data_loop_unroll [OF assms(1) order_refl assms(2)] chunk_count_ge [OF assms(1)]
  by (simp add: data_loop_exit)

lemma data_loop_aborted:
  assumes "1 \<le> ps" and "k < chunk_count (length B) ps" and "\<forall>i<k. chan i" and "\<not> chan k"
  shows "data_loop chan ps B 0 0 tr =
         Some (WriteFailed, Suc k,
               tr @ concat (map (pass B ps) [0..<k]) @
               [Write (chunk_frame B ps k), Console (DataError (int k * ps))])"
proof -
  have lt: "int k * ps < int (length B)"
    using assms(1,2) by (rule chunk_count_lt)
  have "data_loop chan ps B 0 0 tr =
        data_loop chan ps B (int k * ps) k (tr @ concat (map (pass B ps) [0..<k]))"
    using assms by (intro data_loop_unroll) simp_all
  then show ?thesis
    using lt assms(1,4) by (simp add: data_loop_fail chunk_frame_def)
qed

section \<open>Frames as the receiver reads them\<close>

lemma getUint16_setUint16: "getUint16 (setUint16 v) = v mod 65536"
proof -
  let ?u = "v mod 65536"
  have u: "0 \<le> ?u" "?u < 65536" by simp_all
  have lo: "uint (word_of_int (?u mod 256) :: byte) = ?u mod 256"
    by (simp add: uint_word_of_int take_bit_eq_mod)
  have "?u div 256 < 256" using u(2) by simp
  moreover have "0 \<le> ?u div 256" using u(1) by simp
  ultimately have hi: "uint (word_of_int (?u div 256) :: byte) = ?u div 256"
    by (simp add: uint_word_of_int take_bit_eq_mod)
  show ?thesis
    using lo hi by (simp add: getUint16_def setUint16_def Let_def)
qed

lemma length_setUint16: "length (setUint16 v) = 2"
  by (simp add: setUint16_def Let_def)

lemma subarray_slice:
  assumes "0 \<le> off" and "0 \<le> c" and "off + c \<le> int (length B)"
  shows "subarray B off (off + c) = take (nat c) (drop (nat off) B)"
  using assms by (simp add: subarray_def Let_def min_def)

lemma data_frame_slice:
  assumes "0 \<le> off" and "0 \<le> c" and "off + c \<le> int (length B)"
  shows "data_frame B off c =
         [0x01, 0x44] @ setUint16 off @ setUint16 c @ take (nat c) (drop (nat off) B)"
proof -
  have "length (take (nat c) (drop (nat off) B)) = nat c"
    using assms by simp
  then show ?thesis
    using assms by (simp add: data_frame_def subarray_slice Let_def)
qed

lemma chunk_frame_eq:
  assumes "1 \<le> ps" and "k < chunk_count (length B) ps"
  shows "chunk_frame B ps k =
         [0x01, 0x44] @ setUint16 (int k * ps) @
         setUint16 (min ps (int (length B) - int k * ps)) @
         take (nat ps) (drop (k * nat ps) B)"
proof -
  have lt: "int k * ps < int (length B)" using assms by (rule chunk_count_lt)
  have nn: "0 \<le> int k * ps" using assms(1) by simp
  have a: "nat (int k * ps) = k * nat ps"
    using assms(1) by (simp add: nat_mult_distrib)
  have b: "take (nat (min ps (int (length B) - int k * ps))) (drop (k * nat ps) B)
      = take (nat ps) (drop (k * nat ps) B)"
    using a lt by (simp add: min_def)
  have "chunk_frame B ps k = [0x01, 0x44] @ setUint16 (int k * ps) @
         setUint16 (min ps (int (length B) - int k * ps)) @
         take (nat (min ps (int (length B) - int k * ps))) (drop (nat (int k * ps)) B)"
    unfolding chunk_frame_def using assms(1) lt nn
    by (intro data_frame_slice) simp_all
  then show ?thesis by (simp only: a b)
qed

lemma frame_offset_chunk:
  assumes "1 \<le> ps" and "k < chunk_count (length B) ps"
  shows "frame_offset (chunk_frame B ps k) = (int k * ps) mod 65536"
  by (simp add: chunk_frame_eq [OF assms] frame_offset_def length_setUint16 getUint16_setUint16)

lemma frame_length_chunk:
  assumes "1 \<le> ps" and "k < chunk_count (length B) ps"
  shows "frame_length (chunk_frame B ps k) = (min ps (int (length B) - int k * ps)) mod 65536"
  by (simp add: chunk_frame_eq [OF assms] frame_length_def length_setUint16 getUint16_setUint16)

lemma frame_payload_chunk:
  assumes "1 \<le> ps" and "k < chunk_count (length B) ps"
  shows "frame_payload (chunk_frame B ps k) = take (nat ps) (drop (k * nat ps) B)"
  by (simp add: chunk_frame_eq [OF assms] frame_payload_def length_setUint16)

lemma is_data_chunk:
  assumes "1 \<le> ps" and "k < chunk_count (length B) ps"
  shows "is_data (chunk_frame B ps k)" and "\<not> is_program (chunk_frame B ps k)"
  by (simp_all add: chunk_frame_eq [OF assms] is_data_def is_program_def)

lemma is_program_frame:
  "is_program (program_frame l c sl)" "\<not> is_data (program_frame l c sl)"
  "\<not> is_program reload_frame" "\<not> is_data reload_frame"
  by (simp_all add: is_program_def is_data_def program_frame_def reload_frame_def)

lemma concat_slices:
  "concat (map (\<lambda>k. take p (drop (k * p) B)) [0..<m]) = take (m * p) B"
proof (induction m)
  case 0
  show ?case by simp
next
  case (Suc m)
  have "take (m * p) B @ take p (drop (m * p) B) = take (m * p + p) B"
    by (simp add: take_add)
  then show ?case using Suc by (simp add: add.commute)
qed

lemma chunk_fields:
  assumes "1 \<le> ps" and "k < chunk_count (length B) ps" and "length B \<le> 65535"
  shows "frame_offset (chunk_frame B ps k) = int k * ps"
    and "frame_length (chunk_frame B ps k) = min ps (int (length B) - int k * ps)"
    and "1 \<le> frame_length (chunk_frame B ps k)"
    and "frame_length (chunk_frame B ps k) \<le> ps"
proof -
  have lt: "int k * ps < int (length B)" using assms(1,2) by (rule chunk_count_lt)
  have nn: "0 \<le> int k * ps" using assms(1) by simp
  show o: "frame_offset (chunk_frame B ps k) = int k * ps"
    using lt nn assms(3) by (simp add: frame_offset_chunk [OF assms(1,2)])
  have "int (length B) - int k * ps < 65536"
    using nn assms(3) by simp
  then have "0 \<le> min ps (int (length B) - int k * ps)"
    "min ps (int (length B) - int k * ps) < 65536"
    using lt assms(1) by (simp_all add: min_less_iff_disj)
  then show l: "frame_length (chunk_frame B ps k) = min ps (int (length B) - int k * ps)"
    by (simp add: frame_length_chunk [OF assms(1,2)])
  show "1 \<le> frame_length (chunk_frame B ps k)" using l lt assms(1) by simp
  show "frame_length (chunk_frame B ps k) \<le> ps" using l by simp
qed

lemma chunk_payload_length:
  assumes "1 \<le> ps" and "k < chunk_count (length B) ps"
  shows "int (length (frame_payload (chunk_frame B ps k))) = min ps (int (length B) - int k * ps)"
proof -
  have lt: "int k * ps < int (length B)" using assms(1,2) by (rule chunk_count_lt)
  have a: "int (k * nat ps) = int k * ps" using assms(1) by simp
  then have "k * nat ps \<le> length B" using lt by linarith
  then have d: "int (length B - k * nat ps) = int (length B) - int k * ps"
    using a by simp
  have "int (length (take (nat ps) (drop (k * nat ps) B))) =
        min (int (nat ps)) (int (length B - k * nat ps))"
    by (simp add: of_nat_min min.commute)
  then show ?thesis
    using assms(1) d by (simp add: frame_payload_chunk [OF assms])
qed

lemma chunk_payloads_concat:
  assumes "1 \<le> ps"
  shows "concat (map frame_payload (map (chunk_frame B ps) [0..<chunk_count (length B) ps])) = B"
proof -
  let ?c = "chunk_count (length B) ps"
  have eq: "map frame_payload (map (chunk_frame B ps) [0..<?c]) =
        map (\<lambda>k. take (nat ps) (drop (k * nat ps) B)) [0..<?c]"
    using assms by (simp add: frame_payload_chunk)
  have "int (length B) \<le> int (?c * nat ps)"
    using chunk_count_ge [OF assms, of "length B"] assms by simp
  then have "length B \<le> ?c * nat ps" by linarith
  then show ?thesis unfolding eq concat_slices by simp
qed

lemma chunk_lengths_sum:
  assumes "1 \<le> ps" and "length B \<le> 65535"
  shows "sum_list (map frame_length (map (chunk_frame B ps) [0..<chunk_count (length B) ps]))
         = int (length B)"
proof -
  let ?fs = "map (chunk_frame B ps) [0..<chunk_count (length B) ps]"
  have "map frame_length ?fs = map (\<lambda>f. int (length (frame_payload f))) ?fs"
    using assms by (simp add: chunk_fields(2) chunk_payload_length)
  also have "sum_list \<dots> = int (length (concat (map frame_payload ?fs)))"
    by (simp add: length_concat comp_def flip: sum_list_of_nat)
  finally show ?thesis by (simp only: chunk_payloads_concat [OF assms(1)])
qed

section \<open>The trace of \<open>sendFirmware\<close>\<close>

lemma writes_append: "writes (xs @ ys) = writes xs @ writes ys"
  by (induction xs rule: writes.induct) simp_all

lemma writes_passes: "writes (concat (map (pass B ps) ks)) = map (chunk_frame B ps) ks"
  by (induction ks) (simp_all add: pass_def)

lemma filter_chunks:
  assumes "1 \<le> ps" and "m \<le> chunk_count (length B) ps"
  shows "filter is_data (map (chunk_frame B ps) [0..<m]) = map (chunk_frame B ps) [0..<m]"
    and "filter is_program (map (chunk_frame B ps) [0..<m]) = []"
  using assms by (auto simp: filter_empty_conv filter_id_conv is_data_chunk)

lemma first_failure:
  assumes "\<not> (\<forall>i<c. chan i)"
  shows "\<exists>k<c. (\<forall>i<k. chan i) \<and> \<not> chan (k::nat)"
proof -
  define k where "k = (LEAST i. \<not> chan i)"
  obtain i where i: "i < c" "\<not> chan i" using assms by blast
  have "\<not> chan k" unfolding k_def using i(2) by (rule LeastI)
  moreover have "k \<le> i" unfolding k_def using i(2) by (rule Least_le)
  moreover have "\<forall>j<k. chan j" unfolding k_def using not_less_Least by blast
  ultimately have "k < c \<and> (\<forall>i<k. chan i) \<and> \<not> chan k" using i(1) by simp
  then show ?thesis by blast
qed

lemma sendFirmware_finished:
  assumes "7 \<le> negotiatedMTU s" and "programCharacteristic s = Some chan"
    and "\<forall>i<chunk_count (length B) (negotiatedMTU s - 6). chan i"
  shows "sendFirmware s B = Some (Resolved,
           [Console (SendingBytecode 2 (int (length B)) (crc16_reflect 0xd175 0xffff B)
              (negotiatedMTU s))] @
           concat (map (pass B (negotiatedMTU s - 6))
             [0..<chunk_count (length B) (negotiatedMTU s - 6)]) @
           (if chan (chunk_count (length B) (negotiatedMTU s - 6)) then
              [Write (program_frame (int (length B)) (crc16_reflect 0xd175 0xffff B) 2),
               Console ProgramComplete] @
              sendReload chan (Suc (chunk_count (length B) (negotiatedMTU s - 6)))
            else
              [Write (program_frame (int (length B)) (crc16_reflect 0xd175 0xffff B) 2),
               Console ProgramError]))"
proof -
  have ps: "1 \<le> negotiatedMTU s - 6" using assms(1) by simp
  show ?thesis
    by (simp add: sendFirmware_def assms(2) DATA_HEADER_SIZE_def Let_def
        data_loop_finished [OF ps assms(3)])
qed

lemma sendFirmware_aborted:
  assumes "7 \<le> negotiatedMTU s" and "programCharacteristic s = Some chan"
    and "k < chunk_count (length B) (negotiatedMTU s - 6)"
    and "\<forall>i<k. chan i" and "\<not> chan k"
  shows "sendFirmware s B = Some (Resolved,
           [Console (SendingBytecode 2 (int (length B)) (crc16_reflect 0xd175 0xffff B)
              (negotiatedMTU s))] @
           concat (map (pass B (negotiatedMTU s - 6)) [0..<k]) @
           [Write (chunk_frame B (negotiatedMTU s - 6) k),
            Console (DataError (int k * (negotiatedMTU s - 6)))])"
proof -
  have ps: "1 \<le> negotiatedMTU s - 6" using assms(1) by simp
  show ?thesis
    by (simp add: sendFirmware_def assms(2) DATA_HEADER_SIZE_def Let_def
        data_loop_aborted [OF ps assms(3,4,5)])
qed

lemma sendFirmware_frames:
  assumes "7 \<le> negotiatedMTU s" and "programCharacteristic s = Some chan"
  shows "\<exists>tr m. sendFirmware s B = Some (Resolved, tr) \<and>
           m \<le> chunk_count (length B) (negotiatedMTU s - 6) \<and>
           data_frames tr = map (chunk_frame B (negotiatedMTU s - 6)) [0..<m] \<and>
           ((\<forall>i<chunk_count (length B) (negotiatedMTU s - 6). chan i) \<longrightarrow>
              m = chunk_count (length B) (negotiatedMTU s - 6))"
proof (cases "\<forall>i<chunk_count (length B) (negotiatedMTU s - 6). chan i")
  case True
  let ?c = "chunk_count (length B) (negotiatedMTU s - 6)"
  have ps: "1 \<le> negotiatedMTU s - 6" using assms(1) by simp
  obtain tr where tr: "sendFirmware s B = Some (Resolved, tr)"
    and fs: "data_frames tr = map (chunk_frame B (negotiatedMTU s - 6)) [0..<?c]"
    using filter_chunks(1) [OF ps order_refl, of B]
    by (simp add: sendFirmware_finished [OF assms True] data_frames_def writes_append
        writes_passes sendReload_def is_program_frame)
  show ?thesis
    using tr fs by (intro exI [of _ tr] exI [of _ ?c]) simp
next
  case False
  have ps: "1 \<le> negotiatedMTU s - 6" using assms(1) by simp
  from first_failure [OF False] obtain k
    where k: "k < chunk_count (length B) (negotiatedMTU s - 6)" "\<forall>i<k. chan i" "\<not> chan k"
    by blast
  have "data_frames ([Console (SendingBytecode 2 (int (length B)) (crc16_reflect 0xd175 0xffff B)
              (negotiatedMTU s))] @
           concat (map (pass B (negotiatedMTU s - 6)) [0..<k]) @
           [Write (chunk_frame B (negotiatedMTU s - 6) k),
            Console (DataError (int k * (negotiatedMTU s - 6)))])
        = map (chunk_frame B (negotiatedMTU s - 6)) [0..<Suc k]"
    using filter_chunks(1) [OF ps, of k B] k(1) is_data_chunk(1) [OF ps k(1)]
    by (simp add: data_frames_def writes_append writes_passes)
  then show ?thesis
    using sendFirmware_aborted [OF assms k] k(1) False
    by (intro exI [of _ "Suc k"] exI conjI) (simp, simp, simp, blast)
qed

lemma chunk_payload_slice:
  assumes "1 \<le> ps" and "k < chunk_count (length B) ps" and "length B \<le> 65535"
  shows "frame_payload (chunk_frame B ps k) =
         take (nat (frame_length (chunk_frame B ps k)))
           (drop (nat (frame_offset (chunk_frame B ps k))) B)"
proof -
  have lt: "int k * ps < int (length B)" using assms(1,2) by (rule chunk_count_lt)
  have a: "nat (int k * ps) = k * nat ps"
    using assms(1) by (simp add: nat_mult_distrib)
  have "take (nat (min ps (int (length B) - int k * ps))) (drop (k * nat ps) B)
      = take (nat ps) (drop (k * nat ps) B)"
    using a lt by (simp add: min_def)
  then show ?thesis
    by (simp add: chunk_fields(1,2) [OF assms] frame_payload_chunk [OF assms(1,2)] a)
qed

lemma setUint16_bytes:
  assumes "0 \<le> v" and "v < 65536"
  shows "setUint16 v = [word_of_int (v mod 256), word_of_int (v div 256)]"
  using assms by (simp add: setUint16_def Let_def)

lemma program_frame_layout:
  "length (program_frame l c sl) = 8"
  "program_frame l c sl ! 0 = 0x01"
  "program_frame l c sl ! Suc 0 = 0x50"
  "program_frame l c sl ! 6 = sl"
  "program_frame l c sl ! 7 = 0"
  "take 2 (drop 2 (program_frame l c sl)) = setUint16 l"
  "take 2 (drop 4 (program_frame l c sl)) = setUint16 (uint c)"
  by (simp_all add: program_frame_def setUint16_def Let_def)

lemma program_frame_fields:
  "program_totalLength (program_frame l c sl) = l mod 65536"
  "program_crc16 (program_frame l c sl) = uint c mod 65536"
  by (simp_all add: program_totalLength_def program_crc16_def program_frame_layout
      getUint16_setUint16)

text \<open>The frames have the sizes \<open>sendFirmware\<close> allocates.\<close>

lemma frame_sizes:
  "int (length (program_frame l c sl)) = PROGRAM_HEADER_SIZE"
  "0 \<le> off \<Longrightarrow> 0 \<le> sz \<Longrightarrow> off + sz \<le> int (length B) \<Longrightarrow>
     int (length (data_frame B off sz)) = DATA_HEADER_SIZE + sz"
  by (simp_all add: program_frame_layout PROGRAM_HEADER_SIZE_def DATA_HEADER_SIZE_def
      data_frame_slice length_setUint16)

lemma sendFirmware_completes:
  assumes "7 \<le> negotiatedMTU s" and "programCharacteristic s = Some chan"
    and "\<forall>i<chunk_count (length B) (negotiatedMTU s - 6). chan i"
  shows "\<exists>tr. sendFirmware s B = Some (Resolved, tr) \<and>
      data_frames tr =
        map (chunk_frame B (negotiatedMTU s - 6)) [0..<chunk_count (length B) (negotiatedMTU s - 6)] \<and>
      program_frames tr = [program_frame (int (length B)) (crc16_reflect 0xd175 0xffff B) 2] \<and>
      writes tr =
        map (chunk_frame B (negotiatedMTU s - 6)) [0..<chunk_count (length B) (negotiatedMTU s - 6)] @
        program_frame (int (length B)) (crc16_reflect 0xd175 0xffff B) 2 #
        (if chan (chunk_count (length B) (negotiatedMTU s - 6)) then [reload_frame] else [])"
proof -
  have ps: "1 \<le> negotiatedMTU s - 6" using assms(1) by simp
  show ?thesis
    using filter_chunks [OF ps order_refl, of B]
    by (simp add: sendFirmware_finished [OF assms] data_frames_def program_frames_def
        writes_append writes_passes sendReload_def is_program_frame)
qed

lemma sendFirmware_aborts:
  assumes "7 \<le> negotiatedMTU s" and "programCharacteristic s = Some chan"
    and "k < chunk_count (length B) (negotiatedMTU s - 6)"
    and "\<forall>i<k. chan i" and "\<not> chan k"
  shows "\<exists>tr. sendFirmware s B = Some (Resolved, tr) \<and>
      writes tr = map (chunk_frame B (negotiatedMTU s - 6)) [0..<Suc k] \<and>
      data_frames tr = map (chunk_frame B (negotiatedMTU s - 6)) [0..<Suc k] \<and>
      program_frames tr = [] \<and>
      last tr = Console (DataError (int k * (negotiatedMTU s - 6)))"
proof -
  have ps: "1 \<le> negotiatedMTU s - 6" using assms(1) by simp
  show ?thesis
    using filter_chunks [OF ps, of k B] assms(3) is_data_chunk [OF ps assms(3)]
    by (simp add: sendFirmware_aborted [OF assms] data_frames_def program_frames_def
        writes_append writes_passes)
qed

lemma sendFirmware_runs:
  assumes "7 \<le> negotiatedMTU s" and "programCharacteristic s = Some chan"
  shows "\<exists>tr m. sendFirmware s B = Some (Resolved, tr) \<and>
           m \<le> chunk_count (length B) (negotiatedMTU s - 6) \<and>
           data_frames tr = map (chunk_frame B (negotiatedMTU s - 6)) [0..<m] \<and>
           set (program_frames tr) \<subseteq>
             {program_frame (int (length B)) (crc16_reflect 0xd175 0xffff B) 2}"
proof (cases "\<forall>i<chunk_count (length B) (negotiatedMTU s - 6). chan i")
  case True
  from sendFirmware_completes [OF assms True] obtain tr
    where "sendFirmware s B = Some (Resolved, tr)"
      and "data_frames tr = map (chunk_frame B (negotiatedMTU s - 6))
             [0..<chunk_count (length B) (negotiatedMTU s - 6)]"
      and "program_frames tr = [program_frame (int (length B)) (crc16_reflect 0xd175 0xffff B) 2]"
    by blast
  then show ?thesis
    by (intro exI [of _ tr] exI [of _ "chunk_count (length B) (negotiatedMTU s - 6)"]) simp
next
  case False
  from first_failure [OF False] obtain k
    where k: "k < chunk_count (length B) (negotiatedMTU s - 6)" "\<forall>i<k. chan i" "\<not> chan k"
    by blast
  from sendFirmware_aborts [OF assms k] obtain tr
    where "sendFirmware s B = Some (Resolved, tr)"
      and "data_frames tr = map (chunk_frame B (negotiatedMTU s - 6)) [0..<Suc k]"
      and "program_frames tr = []"
    by blast
  then show ?thesis
    using k(1) by (intro exI [of _ tr] exI [of _ "Suc k"]) simp
qed

lemma length_zeros: "length (zeros n) = n"
  by (simp add: zeros_def)

lemma session_of_simps:
  "programCharacteristic (session_of chan mtu) = Some chan"
  "negotiatedMTU (session_of chan mtu) = mtu"
  by (simp_all add: session_of_def)

text \<open>
  Whatever the payload size, the loop writes nothing that reads as a Program frame, so a
  run of \<open>sendFirmware\<close> that returns has written at most the one it builds after the
  loop.
\<close>

lemma data_frame_not_program: "\<not> is_program (data_frame B off c)"
  by (simp add: data_frame_def is_program_def Let_def)

lemma program_frames_append:
  "program_frames (xs @ ys) = program_frames xs @ program_frames ys"
  by (simp add: program_frames_def writes_append)

lemma data_loop_program_frames:
  assumes "data_loop chan ps B off n tr = Some y"
  shows "program_frames (snd (snd y)) = program_frames tr"
proof (rule data_loop.raw_induct
    [where P = "\<lambda>chan ps B off n tr y. program_frames (snd (snd y)) = program_frames tr",
      OF _ assms])
  fix f :: "(nat \<Rightarrow> bool) \<Rightarrow> int \<Rightarrow> byte list \<Rightarrow> int \<Rightarrow> nat \<Rightarrow> event list
      \<Rightarrow> (loop_exit \<times> nat \<times> event list) option"
    and chan :: "nat \<Rightarrow> bool" and ps off :: int and B :: "byte list" and n :: nat
    and tr :: "event list" and y :: "loop_exit \<times> nat \<times> event list"
  assume IH: "\<And>chan ps B off n tr y. f chan ps B off n tr = Some y \<Longrightarrow>
      program_frames (snd (snd y)) = program_frames tr"
  assume step: "(if off < int (length B)
      then let chunkDataSize = min ps (int (length B) - off)
           in if chunkDataSize < 0 then Some (RangeError, n, tr)
              else let buffer = data_frame B off chunkDataSize
                   in if chan n
                      then f chan ps B (off + ps) (Suc n)
                            (tr @ [Write buffer, Console (DataOk off chunkDataSize)])
                      else Some (WriteFailed, Suc n,
                             tr @ [Write buffer, Console (DataError off)])
      else Some (Finished, n, tr)) = Some y"
  let ?c = "min ps (int (length B) - off)"
  have one: "program_frames (tr @ [Write (data_frame B off ?c), e]) = program_frames tr"
    if "e = Console (DataOk off ?c) \<or> e = Console (DataError off)" for e
    using that by (auto simp: program_frames_def writes_append data_frame_not_program)
  show "program_frames (snd (snd y)) = program_frames tr"
  proof (cases "off < int (length B) \<and> \<not> ?c < 0 \<and> chan n")
    case True
    then have "f chan ps B (off + ps) (Suc n)
        (tr @ [Write (data_frame B off ?c), Console (DataOk off ?c)]) = Some y"
      using step by (simp add: Let_def)
    from IH [OF this] show ?thesis by (simp add: one)
  next
    case False
    then show ?thesis
      using step one [of "Console (DataError off)"]
      by (auto simp: Let_def split: if_splits)
  qed
qed

lemma sendFirmware_program_frames:
  assumes "sendFirmware s B = Some (out, tr)"
  shows "set (program_frames tr) \<subseteq>
           {program_frame (int (length B)) (crc16_reflect 0xd175 0xffff B) 2}"
proof (cases "programCharacteristic s")
  case None
  then show ?thesis
    using assms by (auto simp: sendFirmware_def program_frames_def)
next
  case (Some chan)
  let ?t0 = "[Console (SendingBytecode 2 (int (length B)) (crc16_reflect 0xd175 0xffff B)
                (negotiatedMTU s))]"
  let ?loop = "data_loop chan (negotiatedMTU s - DATA_HEADER_SIZE) B 0 0 ?t0"
  from assms Some obtain e n tr' where loop: "?loop = Some (e, n, tr')"
    by (cases ?loop) (auto simp: sendFirmware_def Let_def)
  from data_loop_program_frames [OF loop] have pf: "\<forall>x \<in> set (writes tr'). \<not> is_program x"
    by (simp add: program_frames_def filter_empty_conv)
  show ?thesis
    using assms Some loop pf
    by (cases e)
      (auto simp: sendFirmware_def Let_def writes_append sendReload_def
        program_frames_def is_program_frame split: if_splits)
qed

section \<open>The Data frames cover the buffer\<close>

text \<open>
  Claim C1. For a buffer of at most 65535 bytes and a negotiated MTU of at least 7,
  on any channel, \<open>sendFirmware\<close> returns, and the Data frames it wrote, as the receiver
  reads them, start at offset 0; each next offset is larger than the one before and equals
  it plus that frame's length; each frame's length field is \<open>min (negotiatedMTU - 6)
  (len B - offset)\<close> and is the length of its payload; and when no chunk write fails the
  lengths sum to \<open>len B\<close>. So the offsets cover \<open>[0, len B)\<close> with no gap and no overlap. (A
  failed write ends the sequence early; the frames written up to it have the same
  properties.)
\<close>

theorem data_frames_cover_buffer:
  assumes "length B \<le> 65535" and "7 \<le> negotiatedMTU s"
    and "programCharacteristic s = Some chan"
  shows "\<exists>tr. sendFirmware s B = Some (Resolved, tr) \<and>
      (data_frames tr \<noteq> [] \<longrightarrow> frame_offset (hd (data_frames tr)) = 0) \<and>
      (\<forall>i. Suc i < length (data_frames tr) \<longrightarrow>
         frame_offset (data_frames tr ! i) < frame_offset (data_frames tr ! Suc i) \<and>
         frame_offset (data_frames tr ! Suc i) =
           frame_offset (data_frames tr ! i) + frame_length (data_frames tr ! i)) \<and>
      (\<forall>f \<in> set (data_frames tr).
         frame_length f = min (negotiatedMTU s - 6) (int (length B) - frame_offset f) \<and>
         int (length (frame_payload f)) = frame_length f) \<and>
      ((\<forall>i<chunk_count (length B) (negotiatedMTU s - 6). chan i) \<longrightarrow>
         sum_list (map frame_length (data_frames tr)) = int (length B))"
proof -
  let ?ps = "negotiatedMTU s - 6"
  let ?c = "chunk_count (length B) ?ps"
  have ps: "1 \<le> ?ps" using assms(2) by simp
  from sendFirmware_frames [OF assms(2,3), of B] obtain tr m
    where run: "sendFirmware s B = Some (Resolved, tr)"
      and m: "m \<le> ?c"
      and fs: "data_frames tr = map (chunk_frame B ?ps) [0..<m]"
      and full: "(\<forall>i<?c. chan i) \<longrightarrow> m = ?c"
    by blast
  have off: "frame_offset (chunk_frame B ?ps k) = int k * ?ps" if "k < m" for k
    using that m by (intro chunk_fields(1) [OF ps _ assms(1)]) simp
  have len: "frame_length (chunk_frame B ?ps k) = min ?ps (int (length B) - int k * ?ps)"
    if "k < m" for k
    using that m by (intro chunk_fields(2) [OF ps _ assms(1)]) simp
  have plen: "int (length (frame_payload (chunk_frame B ?ps k))) =
      min ?ps (int (length B) - int k * ?ps)" if "k < m" for k
    using that m by (intro chunk_payload_length [OF ps]) simp
  have first: "data_frames tr \<noteq> [] \<longrightarrow> frame_offset (hd (data_frames tr)) = 0"
  proof
    assume "data_frames tr \<noteq> []"
    then have "0 < m" using fs by simp
    then show "frame_offset (hd (data_frames tr)) = 0"
      using off [of 0] by (simp add: fs hd_map upt_conv_Cons)
  qed
  have step: "\<forall>i. Suc i < length (data_frames tr) \<longrightarrow>
         frame_offset (data_frames tr ! i) < frame_offset (data_frames tr ! Suc i) \<and>
         frame_offset (data_frames tr ! Suc i) =
           frame_offset (data_frames tr ! i) + frame_length (data_frames tr ! i)"
  proof (intro allI impI)
    fix i
    assume "Suc i < length (data_frames tr)"
    then have i: "Suc i < m" by (simp add: fs)
    then have "Suc i < ?c" using m by simp
    then have "int (Suc i) * ?ps < int (length B)" using ps by (intro chunk_count_lt)
    then have "min ?ps (int (length B) - int i * ?ps) = ?ps"
      by (simp add: algebra_simps)
    then show "frame_offset (data_frames tr ! i) < frame_offset (data_frames tr ! Suc i) \<and>
         frame_offset (data_frames tr ! Suc i) =
           frame_offset (data_frames tr ! i) + frame_length (data_frames tr ! i)"
      using i ps off [of i] off [of "Suc i"] len [of i] by (simp add: fs algebra_simps)
  qed
  have each: "\<forall>f \<in> set (data_frames tr).
         frame_length f = min ?ps (int (length B) - frame_offset f) \<and>
         int (length (frame_payload f)) = frame_length f"
    using off len plen by (auto simp: fs)
  have total: "(\<forall>i<?c. chan i) \<longrightarrow> sum_list (map frame_length (data_frames tr)) = int (length B)"
    using full chunk_lengths_sum [OF ps assms(1)] by (simp add: fs)
  show ?thesis
    using run first step each total by blast
qed

theorem data_frames_cover_buffer_witness:
  "\<exists>tr. sendFirmware (session_of always_ok 9) [1, 2, 3, 4, 5, 6, 7] = Some (Resolved, tr) \<and>
     frame_offset (hd (data_frames tr)) = 0 \<and>
     sum_list (map frame_length (data_frames tr)) = 7"
proof -
  from data_frames_cover_buffer [of "[1, 2, 3, 4, 5, 6, 7]" "session_of always_ok 9" always_ok]
  obtain tr where run: "sendFirmware (session_of always_ok 9) [1, 2, 3, 4, 5, 6, 7] = Some (Resolved, tr)"
    and first: "data_frames tr \<noteq> [] \<longrightarrow> frame_offset (hd (data_frames tr)) = 0"
    and total: "sum_list (map frame_length (data_frames tr)) = 7"
    by (auto simp: session_of_def always_ok_def)
  from total have "data_frames tr \<noteq> []" by auto
  with run first total show ?thesis by blast
qed

section \<open>Reassembly\<close>

text \<open>
  Claim C2. For a buffer of at most 65535 bytes and a negotiated MTU of at least 7, on
  any channel, the payload of every Data frame written is the slice of the buffer that its
  offset and length fields name, \<open>B[offset .. offset + chunkSize)\<close>, and when no chunk
  write fails the payloads, concatenated in the order of the frames, are the buffer.
\<close>

theorem payloads_reassemble_buffer:
  assumes "length B \<le> 65535" and "7 \<le> negotiatedMTU s"
    and "programCharacteristic s = Some chan"
  shows "\<exists>tr. sendFirmware s B = Some (Resolved, tr) \<and>
      (\<forall>f \<in> set (data_frames tr).
         frame_payload f = take (nat (frame_length f)) (drop (nat (frame_offset f)) B)) \<and>
      ((\<forall>i<chunk_count (length B) (negotiatedMTU s - 6). chan i) \<longrightarrow>
         concat (map frame_payload (data_frames tr)) = B)"
proof -
  let ?ps = "negotiatedMTU s - 6"
  let ?c = "chunk_count (length B) ?ps"
  have ps: "1 \<le> ?ps" using assms(2) by simp
  from sendFirmware_frames [OF assms(2,3), of B] obtain tr m
    where run: "sendFirmware s B = Some (Resolved, tr)"
      and m: "m \<le> ?c"
      and fs: "data_frames tr = map (chunk_frame B ?ps) [0..<m]"
      and full: "(\<forall>i<?c. chan i) \<longrightarrow> m = ?c"
    by blast
  have each: "\<forall>f \<in> set (data_frames tr).
         frame_payload f = take (nat (frame_length f)) (drop (nat (frame_offset f)) B)"
  proof
    fix f
    assume "f \<in> set (data_frames tr)"
    then obtain k where k: "k < m" "f = chunk_frame B ?ps k" by (auto simp: fs)
    then have "k < ?c" using m by simp
    then show "frame_payload f = take (nat (frame_length f)) (drop (nat (frame_offset f)) B)"
      unfolding k(2) using ps assms(1) by (intro chunk_payload_slice)
  qed
  have whole: "(\<forall>i<?c. chan i) \<longrightarrow> concat (map frame_payload (data_frames tr)) = B"
    using full chunk_payloads_concat [OF ps, of B] by (simp add: fs)
  show ?thesis using run each whole by blast
qed

theorem payloads_reassemble_buffer_witness:
  "\<exists>tr. sendFirmware (session_of always_ok 9) [1, 2, 3, 4, 5, 6, 7] = Some (Resolved, tr) \<and>
     map frame_payload (data_frames tr) \<noteq> [] \<and>
     concat (map frame_payload (data_frames tr)) = [1, 2, 3, 4, 5, 6, 7]"
proof -
  from payloads_reassemble_buffer [of "[1, 2, 3, 4, 5, 6, 7]" "session_of always_ok 9" always_ok]
  obtain tr
    where run: "sendFirmware (session_of always_ok 9) [1, 2, 3, 4, 5, 6, 7] = Some (Resolved, tr)"
      and whole: "concat (map frame_payload (data_frames tr)) = [1, 2, 3, 4, 5, 6, 7]"
    by (auto simp: session_of_def always_ok_def)
  from whole have "map frame_payload (data_frames tr) \<noteq> []" by auto
  with run whole show ?thesis by blast
qed

section \<open>The Program frame\<close>

text \<open>
  Claim C3 says the Program frame carries \<open>len B\<close> for every buffer. \<open>sendFirmware\<close> has no
  bound on the buffer, and \<open>setUint16\<close> stores the length modulo \<open>2 ^ 16\<close>: for 65537
  bytes the frame's total length reads 1.
\<close>

theorem program_frame_length_counterexample:
  "map_option (map program_totalLength \<circ> program_frames \<circ> snd)
     (sendFirmware (session_of always_ok 23) (zeros 65537)) = Some [1]
   \<and> int (length (zeros 65537)) = 65537"
proof -
  have "\<exists>tr. sendFirmware (session_of always_ok 23) (zeros 65537) = Some (Resolved, tr) \<and>
      program_frames tr =
        [program_frame (int (length (zeros 65537))) (crc16_reflect 0xd175 0xffff (zeros 65537)) 2]"
    using sendFirmware_completes [of "session_of always_ok 23" always_ok "zeros 65537"]
    by (simp add: session_of_simps always_ok_def) blast
  then show ?thesis
    by (auto simp: program_frame_fields length_zeros)
qed

text \<open>
  Claim C3, amended. For every buffer and every session, a Program frame that
  \<open>sendFirmware\<close> writes is 8 bytes: version \<open>0x01\<close>, tag \<open>'P'\<close> (\<open>0x50\<close>), slot 2 and a zero
  reserved byte. Its total length reads \<open>len B\<close> modulo \<open>2 ^ 16\<close>: that is \<open>len B\<close>,
  little-endian, for a buffer of at most 65535 bytes. Its CRC16 field is, little-endian,
  \<open>checksum 0xD175 0xFFFF B\<close> of the whole buffer, which \<open>sendFirmware\<close> computes before the
  loop and never from the chunks, so it does not depend on the MTU. With a negotiated MTU
  of at least 7 and no chunk write failing the frame is written, as the write after the
  last chunk.
\<close>

theorem program_frame_reflects_buffer:
  "(\<forall>out tr P. sendFirmware s B = Some (out, tr) \<and> P \<in> set (program_frames tr) \<longrightarrow>
      length P = 8 \<and> P ! 0 = 0x01 \<and> P ! 1 = 0x50 \<and> P ! 6 = 2 \<and> P ! 7 = 0 \<and>
      program_totalLength P = int (length B) mod 65536 \<and>
      (length B \<le> 65535 \<longrightarrow>
         program_totalLength P = int (length B) \<and>
         P ! 2 = word_of_int (int (length B) mod 256) \<and>
         P ! 3 = word_of_int (int (length B) div 256)) \<and>
      program_crc16 P = uint (checksum 0xD175 0xFFFF B) \<and>
      P ! 4 = word_of_int (uint (checksum 0xD175 0xFFFF B) mod 256) \<and>
      P ! 5 = word_of_int (uint (checksum 0xD175 0xFFFF B) div 256))
   \<and> (7 \<le> negotiatedMTU s \<and> programCharacteristic s = Some chan \<and>
        (\<forall>i<chunk_count (length B) (negotiatedMTU s - 6). chan i) \<longrightarrow>
        (\<exists>tr P. sendFirmware s B = Some (Resolved, tr) \<and> program_frames tr = [P] \<and>
           writes tr ! chunk_count (length B) (negotiatedMTU s - 6) = P))"
proof (intro conjI allI impI)
  let ?c = "chunk_count (length B) (negotiatedMTU s - 6)"
  let ?crc = "crc16_reflect 0xd175 0xffff B"
  let ?P = "program_frame (int (length B)) ?crc 2"
  have c: "uint ?crc = uint (checksum 0xD175 0xFFFF B)"
    by (rule uint_crc16_reflect_d175)
  have cb: "0 \<le> uint (checksum 0xD175 0xFFFF B)" "uint (checksum 0xD175 0xFFFF B) < 65536"
    using uint_lt2p [of "checksum 0xD175 0xFFFF B"] by simp_all
  have crc: "program_crc16 ?P = uint (checksum 0xD175 0xFFFF B)"
    using cb by (simp add: program_frame_fields c)
  have crcb: "?P ! 4 = word_of_int (uint (checksum 0xD175 0xFFFF B) mod 256)"
    "?P ! 5 = word_of_int (uint (checksum 0xD175 0xFFFF B) div 256)"
    using cb by (simp_all add: program_frame_def c setUint16_bytes length_setUint16 nth_append)
  have small: "program_totalLength ?P = int (length B) \<and>
         ?P ! 2 = word_of_int (int (length B) mod 256) \<and>
         ?P ! 3 = word_of_int (int (length B) div 256)" if b: "length B \<le> 65535"
  proof -
    have "program_totalLength ?P = int (length B)"
      using b by (simp add: program_frame_fields)
    moreover have "?P ! 2 = word_of_int (int (length B) mod 256)"
      "?P ! 3 = word_of_int (int (length B) div 256)"
      using b by (simp_all add: program_frame_def setUint16_bytes)
    ultimately show ?thesis by simp
  qed
  {
    fix out tr P
    assume "sendFirmware s B = Some (out, tr) \<and> P \<in> set (program_frames tr)"
    then have P: "P = ?P" using sendFirmware_program_frames [of s B out tr] by auto
    show "length P = 8" "P ! 0 = 0x01" "P ! 1 = 0x50" "P ! 6 = 2" "P ! 7 = 0"
      "program_totalLength P = int (length B) mod 65536"
      "program_crc16 P = uint (checksum 0xD175 0xFFFF B)"
      "P ! 4 = word_of_int (uint (checksum 0xD175 0xFFFF B) mod 256)"
      "P ! 5 = word_of_int (uint (checksum 0xD175 0xFFFF B) div 256)"
      unfolding P using crc crcb by (simp_all add: program_frame_layout program_frame_fields)
    show "program_totalLength P = int (length B)" 
      "P ! 2 = word_of_int (int (length B) mod 256)"
      "P ! 3 = word_of_int (int (length B) div 256)" if "length B \<le> 65535"
      unfolding P using small [OF that] by simp_all
  }
  assume h: "7 \<le> negotiatedMTU s \<and> programCharacteristic s = Some chan \<and> (\<forall>i<?c. chan i)"
  then have h1: "7 \<le> negotiatedMTU s" and h2: "programCharacteristic s = Some chan"
    and h3: "\<forall>i<?c. chan i" by simp_all
  from sendFirmware_completes [OF h1 h2 h3] obtain tr
    where run: "sendFirmware s B = Some (Resolved, tr)"
      and pf: "program_frames tr = [?P]"
      and ws: "writes tr = map (chunk_frame B (negotiatedMTU s - 6)) [0..<?c] @
                 ?P # (if chan ?c then [reload_frame] else [])"
    by blast
  have at: "writes tr ! ?c = ?P"
    by (simp add: ws nth_append)
  show "\<exists>tr P. sendFirmware s B = Some (Resolved, tr) \<and> program_frames tr = [P] \<and>
           writes tr ! ?c = P"
    using run pf at by blast
qed

theorem program_frame_reflects_buffer_witness:
  "\<exists>tr P. sendFirmware (session_of always_ok 9) [1, 2, 3, 4, 5, 6, 7] = Some (Resolved, tr) \<and>
     program_frames tr = [P] \<and> writes tr ! 3 = P \<and> program_totalLength P = 7 \<and>
     program_crc16 P = uint (checksum 0xD175 0xFFFF [1, 2, 3, 4, 5, 6, 7])"
proof -
  let ?s = "session_of always_ok 9"
  let ?B = "[1, 2, 3, 4, 5, 6, 7] :: byte list"
  have c: "chunk_count (length ?B) (negotiatedMTU ?s - 6) = 3"
    by (simp add: chunk_count_def session_of_simps)
  have h: "7 \<le> negotiatedMTU ?s \<and> programCharacteristic ?s = Some always_ok \<and>
    (\<forall>i<chunk_count (length ?B) (negotiatedMTU ?s - 6). always_ok i)"
    by (simp add: session_of_simps always_ok_def)
  note inst = program_frame_reflects_buffer [of ?s ?B always_ok]
  from inst h obtain tr P
    where run: "sendFirmware ?s ?B = Some (Resolved, tr)" and pf: "program_frames tr = [P]"
      and at: "writes tr ! chunk_count (length ?B) (negotiatedMTU ?s - 6) = P"
    by blast
  from pf have "sendFirmware ?s ?B = Some (Resolved, tr) \<and> P \<in> set (program_frames tr)"
    using run by simp
  with inst have "(length ?B \<le> 65535 \<longrightarrow> program_totalLength P = int (length ?B) \<and>
         P ! 2 = word_of_int (int (length ?B) mod 256) \<and>
         P ! 3 = word_of_int (int (length ?B) div 256))"
      and "program_crc16 P = uint (checksum 0xD175 0xFFFF ?B)"
    by blast+
  then show ?thesis
    using run pf at unfolding c by (intro exI [of _ tr] exI [of _ P]) simp
qed

section \<open>No limit is checked\<close>

text \<open>
  Claim C5 says a buffer of more than 65535 bytes is rejected before any frame is encoded.
  \<open>sendFirmware\<close> has no such check: for 65536 bytes it resolves, and the Program frame it
  wrote carries the total length 0.
\<close>

theorem no_limit_check_counterexample:
  "map_option fst (sendFirmware (session_of always_ok 512) (zeros 65536)) = Some Resolved
   \<and> map_option (map program_totalLength \<circ> program_frames \<circ> snd)
       (sendFirmware (session_of always_ok 512) (zeros 65536)) = Some [0]
   \<and> length (zeros 65536) = 65536"
proof -
  have "\<exists>tr. sendFirmware (session_of always_ok 512) (zeros 65536) = Some (Resolved, tr) \<and>
      program_frames tr =
        [program_frame (int (length (zeros 65536))) (crc16_reflect 0xd175 0xffff (zeros 65536)) 2]"
    using sendFirmware_completes [of "session_of always_ok 512" always_ok "zeros 65536"]
    by (simp add: session_of_simps always_ok_def) blast
  then show ?thesis
    by (auto simp: program_frame_fields length_zeros)
qed

text \<open>
  Claim C5, amended. \<open>sendFirmware\<close> checks no limit and raises no
  \<open>ProtocolLimitExceeded\<close>: with a negotiated MTU of at least 7 it resolves for every
  buffer, on every channel. Within the limits (at most 65535 bytes) no field is
  truncated: Data frame \<open>k\<close> carries the offset \<open>k * (negotiatedMTU - 6)\<close> and the chunk
  length \<open>min (negotiatedMTU - 6) (len B - offset)\<close>, which lies between 1 and
  \<open>negotiatedMTU - 6\<close>, and a Program frame carries \<open>len B\<close>.
\<close>

theorem fields_exact_within_limits:
  assumes "7 \<le> negotiatedMTU s" and "programCharacteristic s = Some chan"
  shows "\<exists>tr. sendFirmware s B = Some (Resolved, tr) \<and>
      (length B \<le> 65535 \<longrightarrow>
         (\<forall>k<length (data_frames tr).
            frame_offset (data_frames tr ! k) = int k * (negotiatedMTU s - 6) \<and>
            frame_length (data_frames tr ! k) =
              min (negotiatedMTU s - 6) (int (length B) - int k * (negotiatedMTU s - 6)) \<and>
            1 \<le> frame_length (data_frames tr ! k) \<and>
            frame_length (data_frames tr ! k) \<le> negotiatedMTU s - 6) \<and>
         (\<forall>P \<in> set (program_frames tr). program_totalLength P = int (length B)))"
proof -
  let ?ps = "negotiatedMTU s - 6"
  have ps: "1 \<le> ?ps" using assms(1) by simp
  from sendFirmware_runs [OF assms, of B] obtain tr m
    where run: "sendFirmware s B = Some (Resolved, tr)"
      and m: "m \<le> chunk_count (length B) ?ps"
      and fs: "data_frames tr = map (chunk_frame B ?ps) [0..<m]"
      and pf: "set (program_frames tr) \<subseteq>
             {program_frame (int (length B)) (crc16_reflect 0xd175 0xffff B) 2}"
    by blast
  have "\<forall>k<length (data_frames tr).
            frame_offset (data_frames tr ! k) = int k * ?ps \<and>
            frame_length (data_frames tr ! k) = min ?ps (int (length B) - int k * ?ps) \<and>
            1 \<le> frame_length (data_frames tr ! k) \<and>
            frame_length (data_frames tr ! k) \<le> ?ps"
    if b: "length B \<le> 65535"
  proof (intro allI impI)
    fix k
    assume "k < length (data_frames tr)"
    then have k: "k < m" by (simp add: fs)
    then have kc: "k < chunk_count (length B) ?ps" using m by simp
    show "frame_offset (data_frames tr ! k) = int k * ?ps \<and>
            frame_length (data_frames tr ! k) = min ?ps (int (length B) - int k * ?ps) \<and>
            1 \<le> frame_length (data_frames tr ! k) \<and>
            frame_length (data_frames tr ! k) \<le> ?ps"
      using chunk_fields [OF ps kc b] k by (simp add: fs)
  qed
  moreover have "\<forall>P \<in> set (program_frames tr). program_totalLength P = int (length B)"
    if b: "length B \<le> 65535"
    using pf b by (auto simp: program_frame_fields)
  ultimately show ?thesis using run by blast
qed

theorem fields_exact_within_limits_witness:
  "\<exists>tr. sendFirmware (session_of always_ok 9) [1, 2, 3, 4, 5, 6, 7] = Some (Resolved, tr) \<and>
      length (data_frames tr) = 3 \<and>
      frame_offset (data_frames tr ! 2) = 6 \<and> frame_length (data_frames tr ! 2) = 1 \<and>
      map program_totalLength (program_frames tr) = [7]"
proof -
  let ?s = "session_of always_ok 9"
  let ?B = "[1, 2, 3, 4, 5, 6, 7] :: byte list"
  have h: "7 \<le> negotiatedMTU ?s" "programCharacteristic ?s = Some always_ok"
    by (simp_all add: session_of_simps)
  have a: "\<forall>i<chunk_count (length ?B) (negotiatedMTU ?s - 6). always_ok i"
    by (simp add: always_ok_def)
  have c: "chunk_count (length ?B) (negotiatedMTU ?s - 6) = 3"
    by (simp add: chunk_count_def session_of_simps)
  from fields_exact_within_limits [OF h, of ?B] obtain tr
    where run: "sendFirmware ?s ?B = Some (Resolved, tr)"
      and lim: "length ?B \<le> 65535 \<longrightarrow>
         (\<forall>k<length (data_frames tr).
            frame_offset (data_frames tr ! k) = int k * (negotiatedMTU ?s - 6) \<and>
            frame_length (data_frames tr ! k) =
              min (negotiatedMTU ?s - 6) (int (length ?B) - int k * (negotiatedMTU ?s - 6)) \<and>
            1 \<le> frame_length (data_frames tr ! k) \<and>
            frame_length (data_frames tr ! k) \<le> negotiatedMTU ?s - 6) \<and>
         (\<forall>P \<in> set (program_frames tr). program_totalLength P = int (length ?B))"
    by blast
  from sendFirmware_completes [OF h a] run
  have n: "length (data_frames tr) = 3" and p: "length (program_frames tr) = 1"
    unfolding c by auto
  from lim n have "frame_offset (data_frames tr ! 2) = 6 \<and> frame_length (data_frames tr ! 2) = 1"
    by (simp add: session_of_simps)
  moreover from p obtain P where "program_frames tr = [P]"
    by (cases "program_frames tr") auto
  then have "map program_totalLength (program_frames tr) = [7]"
    using lim by simp
  ultimately show ?thesis using run n by (intro exI [of _ tr]) simp
qed

text \<open>
  Claim C10. For a buffer of more than 65535 bytes (negotiated MTU at least 7, no chunk
  write failing) \<open>sendFirmware\<close> resolves without an error; it writes all its Data frames
  (at least one) and the Program frame; the offset and length field of Data frame \<open>k\<close> hold
  the offset and the chunk size modulo \<open>2 ^ 16\<close>, and the Program frame's total length
  holds \<open>len B\<close> modulo \<open>2 ^ 16\<close>, which is less than \<open>len B\<close>.
\<close>

theorem oversized_buffer_fields_wrap:
  assumes "65535 < length B" and "7 \<le> negotiatedMTU s"
    and "programCharacteristic s = Some chan"
    and "\<forall>i<chunk_count (length B) (negotiatedMTU s - 6). chan i"
  shows "\<exists>tr P. sendFirmware s B = Some (Resolved, tr) \<and>
      data_frames tr \<noteq> [] \<and>
      length (data_frames tr) = chunk_count (length B) (negotiatedMTU s - 6) \<and>
      (\<forall>k<chunk_count (length B) (negotiatedMTU s - 6).
         frame_offset (data_frames tr ! k) = (int k * (negotiatedMTU s - 6)) mod 2 ^ 16 \<and>
         frame_length (data_frames tr ! k) =
           min (negotiatedMTU s - 6) (int (length B) - int k * (negotiatedMTU s - 6)) mod 2 ^ 16) \<and>
      program_frames tr = [P] \<and>
      program_totalLength P = int (length B) mod 2 ^ 16 \<and>
      program_totalLength P < int (length B)"
proof -
  let ?ps = "negotiatedMTU s - 6"
  let ?c = "chunk_count (length B) ?ps"
  let ?P = "program_frame (int (length B)) (crc16_reflect 0xd175 0xffff B) 2"
  have ps: "1 \<le> ?ps" using assms(2) by simp
  from sendFirmware_completes [OF assms(2,3,4)] obtain tr
    where run: "sendFirmware s B = Some (Resolved, tr)"
      and fs: "data_frames tr = map (chunk_frame B ?ps) [0..<?c]"
      and pf: "program_frames tr = [?P]"
    by blast
  have "int (length B) \<le> int ?c * ?ps" using ps by (rule chunk_count_ge)
  then have c: "0 < ?c" using assms(1) by (cases "?c = 0") simp_all
  have fields: "\<forall>k<?c.
         frame_offset (data_frames tr ! k) = (int k * ?ps) mod 2 ^ 16 \<and>
         frame_length (data_frames tr ! k) =
           min ?ps (int (length B) - int k * ?ps) mod 2 ^ 16"
    using ps by (simp add: fs frame_offset_chunk frame_length_chunk)
  have "int (length B) mod 65536 < 65536" by simp
  then have less: "program_totalLength ?P < int (length B)"
    using assms(1) by (simp add: program_frame_fields)
  show ?thesis
    using run fs pf c fields less
    by (intro exI [of _ tr] exI [of _ ?P]) (simp add: program_frame_fields)
qed

theorem oversized_buffer_fields_wrap_witness:
  "\<exists>tr P. sendFirmware (session_of always_ok 512) (zeros 66000) = Some (Resolved, tr) \<and>
      length (data_frames tr) = 131 \<and>
      frame_offset (data_frames tr ! 130) = 244 \<and>
      frame_length (data_frames tr ! 130) = 220 \<and>
      program_frames tr = [P] \<and> program_totalLength P = 464"
proof -
  let ?s = "session_of always_ok 512"
  have c: "chunk_count (length (zeros 66000)) (negotiatedMTU ?s - 6) = 131"
    by (simp add: chunk_count_def session_of_simps length_zeros)
  have h: "65535 < length (zeros 66000)" "7 \<le> negotiatedMTU ?s"
    "programCharacteristic ?s = Some always_ok"
    "\<forall>i<chunk_count (length (zeros 66000)) (negotiatedMTU ?s - 6). always_ok i"
    by (simp_all add: session_of_simps always_ok_def length_zeros)
  from oversized_buffer_fields_wrap [OF h] obtain tr P
    where run: "sendFirmware ?s (zeros 66000) = Some (Resolved, tr)"
      and n: "length (data_frames tr) = chunk_count (length (zeros 66000)) (negotiatedMTU ?s - 6)"
      and f: "\<forall>k<chunk_count (length (zeros 66000)) (negotiatedMTU ?s - 6).
         frame_offset (data_frames tr ! k) = (int k * (negotiatedMTU ?s - 6)) mod 2 ^ 16 \<and>
         frame_length (data_frames tr ! k) =
           min (negotiatedMTU ?s - 6)
             (int (length (zeros 66000)) - int k * (negotiatedMTU ?s - 6)) mod 2 ^ 16"
      and p: "program_frames tr = [P]"
        "program_totalLength P = int (length (zeros 66000)) mod 2 ^ 16"
    by blast
  from f have "frame_offset (data_frames tr ! 130) = (int 130 * (negotiatedMTU ?s - 6)) mod 2 ^ 16 \<and>
         frame_length (data_frames tr ! 130) =
           min (negotiatedMTU ?s - 6)
             (int (length (zeros 66000)) - int 130 * (negotiatedMTU ?s - 6)) mod 2 ^ 16"
    unfolding c by simp
  then have "frame_offset (data_frames tr ! 130) = 244" "frame_length (data_frames tr ! 130) = 220"
    by (simp_all add: session_of_simps length_zeros)
  then show ?thesis
    using run n p unfolding c
    by (intro exI [of _ tr] exI [of _ P]) (simp add: length_zeros)
qed

section \<open>A failed chunk write\<close>

text \<open>
  Claim C7. With a negotiated MTU of at least 7, if write \<open>k\<close> is the first that fails and
  chunk \<open>k\<close> exists, \<open>sendFirmware\<close> returns at once: the writes made are the Data frames of
  chunks \<open>0\<close> to \<open>k\<close>, each once (nothing is retried and nothing follows the failed
  frame), no Program frame is written, and the last console line reports the error with
  the offset \<open>k * (negotiatedMTU - 6)\<close> of the failing chunk, which is also the offset
  field of the last frame written.
\<close>

theorem chunk_write_failure_aborts:
  assumes "7 \<le> negotiatedMTU s" and "programCharacteristic s = Some chan"
    and "k < chunk_count (length B) (negotiatedMTU s - 6)"
    and "\<forall>i<k. chan i" and "\<not> chan k"
  shows "\<exists>tr. sendFirmware s B = Some (Resolved, tr) \<and>
      writes tr = map (chunk_frame B (negotiatedMTU s - 6)) [0..<Suc k] \<and>
      program_frames tr = [] \<and>
      Console ProgramComplete \<notin> set tr \<and>
      last tr = Console (DataError (int k * (negotiatedMTU s - 6))) \<and>
      (length B \<le> 65535 \<longrightarrow>
         frame_offset (last (writes tr)) = int k * (negotiatedMTU s - 6))"
proof -
  let ?ps = "negotiatedMTU s - 6"
  let ?tr = "[Console (SendingBytecode 2 (int (length B)) (crc16_reflect 0xd175 0xffff B)
              (negotiatedMTU s))] @
           concat (map (pass B ?ps) [0..<k]) @
           [Write (chunk_frame B ?ps k), Console (DataError (int k * ?ps))]"
  have ps: "1 \<le> ?ps" using assms(1) by simp
  have run: "sendFirmware s B = Some (Resolved, ?tr)"
    by (rule sendFirmware_aborted [OF assms])
  have ws: "writes ?tr = map (chunk_frame B ?ps) [0..<Suc k]"
    by (simp add: writes_append writes_passes)
  have pf: "program_frames ?tr = []"
    using filter_chunks(2) [OF ps, of "Suc k" B] assms(3)
    unfolding program_frames_def ws by simp
  have pc: "Console ProgramComplete \<notin> set ?tr"
    by (auto simp: pass_def)
  have off: "length B \<le> 65535 \<longrightarrow> frame_offset (last (writes ?tr)) = int k * ?ps"
    unfolding ws using chunk_fields(1) [OF ps assms(3)] by simp
  show ?thesis
    using run ws pf pc off by (intro exI [of _ ?tr] conjI) simp_all
qed

theorem chunk_write_failure_aborts_witness:
  "\<exists>tr. sendFirmware (session_of (fails_at 20) 23) (zeros 1000) = Some (Resolved, tr) \<and>
      length (writes tr) = 21 \<and> program_frames tr = [] \<and>
      last tr = Console (DataError 340) \<and> frame_offset (last (writes tr)) = 340"
proof -
  let ?s = "session_of (fails_at 20) 23"
  have h: "7 \<le> negotiatedMTU ?s" "programCharacteristic ?s = Some (fails_at 20)"
    "20 < chunk_count (length (zeros 1000)) (negotiatedMTU ?s - 6)"
    "\<forall>i<20. fails_at 20 i" "\<not> fails_at 20 20"
    by (simp_all add: session_of_simps fails_at_def length_zeros chunk_count_def)
  from chunk_write_failure_aborts [OF h] obtain tr
    where "sendFirmware ?s (zeros 1000) = Some (Resolved, tr)"
      and "writes tr = map (chunk_frame (zeros 1000) (negotiatedMTU ?s - 6)) [0..<Suc 20]"
      and "program_frames tr = []"
      and "last tr = Console (DataError (int 20 * (negotiatedMTU ?s - 6)))"
      and "length (zeros 1000) \<le> 65535 \<longrightarrow>
             frame_offset (last (writes tr)) = int 20 * (negotiatedMTU ?s - 6)"
    by blast
  then show ?thesis
    by (intro exI [of _ tr]) (simp add: session_of_simps length_zeros)
qed

section \<open>MTU negotiation\<close>

text \<open>
  Claim C6 says negotiation never yields a value below 7. \<open>negotiateMTU\<close> adopts what the
  transport grants: a grant of 5 gives 5.
\<close>

theorem negotiated_mtu_below_minimum_counterexample:
  "map_attempt negotiatedMTU (negotiateMTU
     \<lparr>programCharacteristic = Some always_ok, requestMTU = Some (grants 5),
      readValue = Throws, negotiatedMTU = 20\<rparr>) = Returns 5"
  by (simp add: negotiateMTU_def grants_def)

text \<open>The same on the read path: a device-reported MTU of 3 gives 0.\<close>

lemma negotiated_mtu_read_path_zero:
  "map_attempt negotiatedMTU (negotiateMTU
     \<lparr>programCharacteristic = Some always_ok, requestMTU = None,
      readValue = Returns [3, 0], negotiatedMTU = 20\<rparr>) = Returns 0"
  by (simp add: negotiateMTU_def getUint16_def)

text \<open>
  Claim C6, amended. On a connected session \<open>negotiateMTU\<close> returns, and it has no lower
  bound and no fail-over for a small value: the result is at least 7 exactly when the
  granted value is at least 7, or the MTU request throws (the default 20), or the
  device-reported value (two bytes or more, read little-endian) is at least 10, or the
  read fails or is too short and the value held before was at least 7.
\<close>

theorem negotiated_mtu_viable_iff:
  assumes "programCharacteristic s = Some chan"
  shows "\<exists>s'. negotiateMTU s = Returns s' \<and>
     (7 \<le> negotiatedMTU s' \<longleftrightarrow>
       (case requestMTU s of
          Some request \<Rightarrow>
            (case request 512 of Returns granted \<Rightarrow> 7 \<le> granted | Throws \<Rightarrow> True)
        | None \<Rightarrow>
            (case readValue s of
               Returns v \<Rightarrow> if length v < 2 then 7 \<le> negotiatedMTU s else 10 \<le> getUint16 v
             | Throws \<Rightarrow> 7 \<le> negotiatedMTU s)))"
  using assms
  by (simp add: negotiateMTU_def REQUESTED_MTU_def DEFAULT_MTU_def
      split: option.split attempt.split)

theorem negotiated_mtu_viable_iff_witness:
  "(\<exists>s'. negotiateMTU
       \<lparr>programCharacteristic = Some always_ok, requestMTU = Some (grants 23),
        readValue = Throws, negotiatedMTU = 20\<rparr> = Returns s' \<and> 7 \<le> negotiatedMTU s')
   \<and> (\<exists>s'. negotiateMTU
       \<lparr>programCharacteristic = Some always_ok, requestMTU = None,
        readValue = Returns [9, 0], negotiatedMTU = 20\<rparr> = Returns s' \<and>
        \<not> 7 \<le> negotiatedMTU s')"
  using negotiated_mtu_viable_iff [of "\<lparr>programCharacteristic = Some always_ok,
      requestMTU = Some (grants 23), readValue = Throws, negotiatedMTU = 20\<rparr>" always_ok]
    negotiated_mtu_viable_iff [of "\<lparr>programCharacteristic = Some always_ok,
      requestMTU = None, readValue = Returns [9, 0], negotiatedMTU = 20\<rparr>" always_ok]
  by (simp add: grants_def getUint16_def)

text \<open>
  Claim C8. When the server has \<open>requestMTU\<close> and the request throws, \<open>negotiateMTU\<close>
  catches the exception and returns with \<open>negotiatedMTU = 20\<close> and the session otherwise
  as it was; the payload size of the transfer that follows is \<open>20 - 6 = 14\<close>:
  \<open>sendFirmware\<close> resolves, its Data frames are the chunks of 14 bytes, all of them when no
  chunk write fails, followed then by the Program frame.
\<close>

theorem mtu_request_failure_falls_back:
  assumes "requestMTU s = Some request" and "request REQUESTED_MTU = Throws"
    and "programCharacteristic s = Some chan"
  shows "negotiateMTU s = Returns (s\<lparr>negotiatedMTU := 20\<rparr>) \<and>
      negotiatedMTU (s\<lparr>negotiatedMTU := 20\<rparr>) - DATA_HEADER_SIZE = 14 \<and>
      (\<exists>tr m. sendFirmware (s\<lparr>negotiatedMTU := 20\<rparr>) B = Some (Resolved, tr) \<and>
         m \<le> chunk_count (length B) 14 \<and>
         data_frames tr = map (chunk_frame B 14) [0..<m] \<and>
         ((\<forall>i<chunk_count (length B) 14. chan i) \<longrightarrow>
            m = chunk_count (length B) 14 \<and>
            program_frames tr =
              [program_frame (int (length B)) (crc16_reflect 0xd175 0xffff B) 2]))"
proof -
  let ?s = "s\<lparr>negotiatedMTU := 20\<rparr>"
  have ret: "negotiateMTU s = Returns ?s"
    using assms by (simp add: negotiateMTU_def DEFAULT_MTU_def)
  have ch: "programCharacteristic ?s = Some chan" using assms(3) by simp
  have ps: "negotiatedMTU ?s - 6 = 14" by simp
  have h: "7 \<le> negotiatedMTU ?s" by simp
  have "\<exists>tr m. sendFirmware ?s B = Some (Resolved, tr) \<and>
         m \<le> chunk_count (length B) 14 \<and>
         data_frames tr = map (chunk_frame B 14) [0..<m] \<and>
         ((\<forall>i<chunk_count (length B) 14. chan i) \<longrightarrow>
            m = chunk_count (length B) 14 \<and>
            program_frames tr =
              [program_frame (int (length B)) (crc16_reflect 0xd175 0xffff B) 2])"
  proof (cases "\<forall>i<chunk_count (length B) 14. chan i")
    case True
    then have "\<forall>i<chunk_count (length B) (negotiatedMTU ?s - 6). chan i"
      by (simp only: ps)
    from sendFirmware_completes [OF h ch this] True show ?thesis
      unfolding ps by blast
  next
    case False
    from sendFirmware_frames [OF h ch, of B] False show ?thesis
      unfolding ps by blast
  qed
  then show ?thesis using ret by (simp add: DATA_HEADER_SIZE_def)
qed

theorem mtu_request_failure_falls_back_witness:
  "negotiateMTU
     \<lparr>programCharacteristic = Some always_ok, requestMTU = Some refuses,
      readValue = Throws, negotiatedMTU = 185\<rparr> =
   Returns \<lparr>programCharacteristic = Some always_ok, requestMTU = Some refuses,
      readValue = Throws, negotiatedMTU = 20\<rparr> \<and>
   (\<exists>tr. sendFirmware
     \<lparr>programCharacteristic = Some always_ok, requestMTU = Some refuses,
      readValue = Throws, negotiatedMTU = 20\<rparr> (zeros 30) = Some (Resolved, tr) \<and>
     data_frames tr = map (chunk_frame (zeros 30) 14) [0..<3])"
proof -
  let ?s = "\<lparr>programCharacteristic = Some always_ok, requestMTU = Some refuses,
      readValue = Throws, negotiatedMTU = 185\<rparr>"
  have h: "requestMTU ?s = Some refuses" "refuses REQUESTED_MTU = Throws"
    "programCharacteristic ?s = Some always_ok"
    by (simp_all add: refuses_def)
  have c: "chunk_count (length (zeros 30)) 14 = 3"
    by (simp add: chunk_count_def length_zeros)
  from mtu_request_failure_falls_back [OF h, of "zeros 30"] show ?thesis
    unfolding c by (auto simp: always_ok_def)
qed

section \<open>Termination of the chunk loop\<close>

text \<open>The pass count is the quotient rounded up.\<close>

lemma chunk_count_ceiling:
  assumes "1 \<le> ps"
  shows "int (chunk_count len ps) = \<lceil>real len / real_of_int ps\<rceil>"
proof -
  let ?c = "chunk_count len ps"
  have p: "0 < real_of_int ps" using assms by simp
  have ge: "int len \<le> int ?c * ps" using assms by (rule chunk_count_ge)
  have lt: "(int ?c - 1) * ps < int len"
  proof (cases "?c = 0")
    case True
    then show ?thesis using assms by simp
  next
    case False
    then have "?c - 1 < ?c" by simp
    from chunk_count_lt [OF assms this] False show ?thesis
      by simp
  qed
  have "real len \<le> real_of_int (int ?c * ps)" using ge by linarith
  then have u: "real len / real_of_int ps \<le> of_int (int ?c)"
    using p by (simp add: pos_divide_le_eq)
  have "real_of_int ((int ?c - 1) * ps) < real len" using lt by linarith
  then have l: "of_int (int ?c) - 1 < real len / real_of_int ps"
    using p by (simp add: pos_less_divide_eq)
  show ?thesis using l u by (rule ceiling_unique [symmetric])
qed

text \<open>
  With a payload size of 0 the offset never moves: on a non-empty buffer, and a channel
  that accepts every write, no pass of the loop can be the last one.
\<close>

lemma data_loop_zero_payload:
  assumes "data_loop chan ps B off n tr = Some y"
  shows "\<not> (ps = 0 \<and> (\<forall>i. chan i) \<and> off < int (length B))"
proof (rule data_loop.raw_induct
    [where P = "\<lambda>chan ps B off n tr y. \<not> (ps = 0 \<and> (\<forall>i. chan i) \<and> off < int (length B))",
      OF _ assms])
  fix f :: "(nat \<Rightarrow> bool) \<Rightarrow> int \<Rightarrow> byte list \<Rightarrow> int \<Rightarrow> nat \<Rightarrow> event list
      \<Rightarrow> (loop_exit \<times> nat \<times> event list) option"
    and chan :: "nat \<Rightarrow> bool" and ps off :: int and B :: "byte list" and n :: nat
    and tr :: "event list" and y :: "loop_exit \<times> nat \<times> event list"
  assume IH: "\<And>chan ps B off n tr y. f chan ps B off n tr = Some y \<Longrightarrow>
      \<not> (ps = 0 \<and> (\<forall>i. chan i) \<and> off < int (length B))"
  assume step: "(if off < int (length B)
      then let chunkDataSize = min ps (int (length B) - off)
           in if chunkDataSize < 0 then Some (RangeError, n, tr)
              else let buffer = data_frame B off chunkDataSize
                   in if chan n
                      then f chan ps B (off + ps) (Suc n)
                            (tr @ [Write buffer, Console (DataOk off chunkDataSize)])
                      else Some (WriteFailed, Suc n,
                             tr @ [Write buffer, Console (DataError off)])
      else Some (Finished, n, tr)) = Some y"
  show "\<not> (ps = 0 \<and> (\<forall>i. chan i) \<and> off < int (length B))"
  proof
    assume a: "ps = 0 \<and> (\<forall>i. chan i) \<and> off < int (length B)"
    then have "f chan ps B (off + ps) (Suc n)
        (tr @ [Write (data_frame B off (min ps (int (length B) - off))),
               Console (DataOk off (min ps (int (length B) - off)))]) = Some y"
      using step by (simp add: Let_def)
    from IH [OF this] a show False by simp
  qed
qed

lemma data_loop_never_returns:
  assumes "B \<noteq> []" and "\<forall>i. chan i"
  shows "data_loop chan 0 B 0 n tr = None"
proof (cases "data_loop chan 0 B 0 n tr")
  case None
  then show ?thesis .
next
  case (Some y)
  from data_loop_zero_payload [OF Some] assms show ?thesis by simp
qed

text \<open>
  Below a payload size of 1 nothing is checked either. With an MTU under 6 and a non-empty
  buffer, building the first frame throws a \<open>RangeError\<close> and the promise rejects before
  any write; with an MTU of 6, a non-empty buffer and a channel that accepts every write,
  \<open>sendFirmware\<close> never returns.
\<close>

lemma sendFirmware_mtu_below_header:
  assumes "negotiatedMTU s < 6" and "B \<noteq> []" and "programCharacteristic s = Some chan"
  shows "sendFirmware s B = Some (Rejected,
           [Console (SendingBytecode 2 (int (length B)) (crc16_reflect 0xd175 0xffff B)
              (negotiatedMTU s))])"
  using assms
  by (simp add: sendFirmware_def Let_def DATA_HEADER_SIZE_def data_loop_throw)

lemma sendFirmware_mtu_header_only:
  assumes "negotiatedMTU s = 6" and "B \<noteq> []" and "programCharacteristic s = Some chan"
    and "\<forall>i. chan i"
  shows "sendFirmware s B = None"
  using assms
  by (simp add: sendFirmware_def Let_def DATA_HEADER_SIZE_def data_loop_never_returns)

text \<open>
  Claim C9. With a payload size of at least 1 the chunk loop ends for every buffer and
  every channel; each pass makes one write, so \<open>n\<close>, the writes the loop made, counts its
  passes. The loop makes at most \<open>\<lceil>len B / payloadSize\<rceil>\<close> passes, and exactly that many,
  leaving through its condition, when none of these writes fails (a failed write returns
  from the function earlier). The offset only moves by the payload size, and with a payload
  size of 0 the loop does not end, as shown above.
\<close>

theorem chunk_loop_terminates:
  assumes "1 \<le> payloadSize"
  shows "\<exists>exit n tr'. data_loop chan payloadSize B 0 0 tr = Some (exit, n, tr') \<and>
      length (writes tr') = length (writes tr) + n \<and>
      int n \<le> \<lceil>real (length B) / real_of_int payloadSize\<rceil> \<and>
      ((\<forall>i. int i < \<lceil>real (length B) / real_of_int payloadSize\<rceil> \<longrightarrow> chan i) \<longrightarrow>
         exit = Finished \<and> int n = \<lceil>real (length B) / real_of_int payloadSize\<rceil>)"
proof -
  let ?c = "chunk_count (length B) payloadSize"
  have c: "\<lceil>real (length B) / real_of_int payloadSize\<rceil> = int ?c"
    using assms by (simp add: chunk_count_ceiling)
  show ?thesis
  proof (cases "\<forall>i<?c. chan i")
    case True
    have "length (writes (tr @ concat (map (pass B payloadSize) [0..<?c]))) =
          length (writes tr) + ?c"
      by (simp add: writes_append writes_passes)
    then show ?thesis
      unfolding c using data_loop_finished [OF assms True, of tr] by simp
  next
    case False
    from first_failure [OF False] obtain k
      where k: "k < ?c" "\<forall>i<k. chan i" "\<not> chan k" by blast
    have "length (writes (tr @ concat (map (pass B payloadSize) [0..<k]) @
               [Write (chunk_frame B payloadSize k), Console (DataError (int k * payloadSize))])) =
          length (writes tr) + Suc k"
      by (simp add: writes_append writes_passes)
    then show ?thesis
      unfolding c using data_loop_aborted [OF assms k, of tr] k(1) False by auto
  qed
qed

theorem chunk_loop_terminates_witness:
  "\<exists>exit n tr'. data_loop always_ok 17 (zeros 1000) 0 0 [] = Some (exit, n, tr') \<and>
      exit = Finished \<and> n = 59 \<and> length (writes tr') = 59"
proof -
  have h: "(1::int) \<le> 17" by simp
  have c: "\<lceil>real (length (zeros 1000)) / real_of_int 17\<rceil> = 59"
    by (simp add: length_zeros)
  from chunk_loop_terminates [OF h, of always_ok "zeros 1000" "[]"] show ?thesis
    unfolding c by (auto simp: always_ok_def)
qed

end
